theory Spec2Isabelle
  imports Main "HOL-Library.AList"
begin

section \<open>Data model of hmonitors.py\<close>

text \<open>
  Every way a reconciliation pass can stop early. The four \<open>Exit\<close> constructors are the
  four places where the program logs an error and calls \<open>sys.exit(1)\<close>; the others are
  the Python exceptions that the statements of the modelled functions can raise.
\<close>

datatype error =
    Exit_No_Match string
  | Exit_Multiple_Monitors
  | Exit_Invalid_Align string string
  | Exit_Not_Found string
  | AttributeError
  | ValueError
  | IndexError
  | KeyError
  | RecursionError

text \<open>
  Values of the YAML configuration and of the JSON printed by \<open>hyprctl\<close>. Floating-point
  numbers are left out. Python compares \<open>True\<close> and \<open>False\<close> equal to \<open>1\<close> and \<open>0\<close>.
\<close>

datatype jvalue = JStr string | JInt int | JBool bool | JNull

fun py_eq :: "jvalue \<Rightarrow> jvalue \<Rightarrow> bool" where
  "py_eq (JBool b) (JInt i) = (i = (if b then 1 else 0))"
| "py_eq (JInt i) (JBool b) = (i = (if b then 1 else 0))"
| "py_eq v w = (v = w)"

text \<open>
  One entry of \<open>hyprctl monitors all -j\<close>. The three keys that \<open>setup_monitors\<close> reads are
  typed fields; every other key of the JSON object is in \<open>hother\<close>.
\<close>

record hypr_monitor =
  hname :: string
  hwidth :: int
  hheight :: int
  hother :: "(string \<times> jvalue) list"

definition hfield :: "hypr_monitor \<Rightarrow> string \<Rightarrow> jvalue option" where
  "hfield mon key =
     (if key = ''name'' then Some (JStr (hname mon))
      else if key = ''width'' then Some (JInt (hwidth mon))
      else if key = ''height'' then Some (JInt (hheight mon))
      else map_of (hother mon) key)"

text \<open>
  The attribute \<open>position\<close> of a \<open>Monitor\<close> is \<open>None\<close>, the string \<open>auto\<close>, or a string
  \<open>XxY\<close> printed from two integers, which \<open>int(position.split('x')[i])\<close> reads back.
  The attribute \<open>resolution\<close> is \<open>None\<close>, the string \<open>preferred\<close>, or \<open>WxH\<close>.
\<close>

datatype position = Unset | Auto | At int int

datatype resolution = NoRes | Preferred | Res int int

record monitor =
  mid :: string
  name :: string
  above :: "string option"
  below :: "string option"
  left :: "string option"
  right :: "string option"
  resolution :: resolution
  position :: position
  align :: string
  scale :: jvalue
  extra :: "string option"

text \<open>\<open>Monitor.__init__\<close>\<close>

definition Monitor :: "string \<Rightarrow> string \<Rightarrow> monitor" where
  "Monitor i n =
     \<lparr>mid = i, name = n, above = None, below = None, left = None, right = None,
      resolution = NoRes, position = Unset, align = ''center'', scale = JInt 1,
      extra = None\<rparr>"

text \<open>\<open>Monitor.set_align\<close>: an alignment outside the five names ends the program.\<close>

definition set_align :: "monitor \<Rightarrow> string \<Rightarrow> error + monitor" where
  "set_align m a =
     (if a \<notin> set [''left'', ''right'', ''top'', ''bottom'', ''center'']
      then Inl (Exit_Invalid_Align a (name m))
      else Inr (m\<lparr>align := a\<rparr>))"

text \<open>
  A neighbour attribute is tested by truth value (\<open>if monitor.right:\<close>): \<open>None\<close> and the
  empty string are both false.
\<close>

fun truthy :: "string option \<Rightarrow> bool" where
  "truthy None = False"
| "truthy (Some s) = (s \<noteq> [])"

text \<open>
  One entry of \<open>config['monitors']\<close>: the four keys the program reads, each optional.
  The mapping itself is a Python dict, kept as an association list in insertion order.
\<close>

record monitor_config =
  c_match :: "(string \<times> jvalue) list list option"
  c_align :: "string option"
  c_position :: "string option"
  c_scale :: "jvalue option"

type_synonym config = "(string \<times> monitor_config) list"

type_synonym monitors = "(string \<times> monitor) list"

text \<open>
  \<open>monitors[k].set_...(v)\<close> mutates the object stored under the key \<open>k\<close> in place.
\<close>

definition modify :: "string \<Rightarrow> (monitor \<Rightarrow> monitor) \<Rightarrow> monitors \<Rightarrow> monitors" where
  "modify k f ms = map (\<lambda>(k', m). (k', if k' = k then f m else m)) ms"

section \<open>Strings\<close>

text \<open>\<open>str.split()\<close> with no argument: the maximal runs of non-whitespace characters.\<close>

definition is_space :: "char \<Rightarrow> bool" where
  "is_space c = (of_char c \<in> set [9, 10, 11, 12, 13, 28, 29, 30, 31, 32 :: nat])"

fun tokens :: "string \<Rightarrow> string \<Rightarrow> string list" where
  "tokens cur [] = (if cur = [] then [] else [cur])"
| "tokens cur (c # cs) =
     (if is_space c then (if cur = [] then tokens [] cs else cur # tokens [] cs)
      else tokens (cur @ [c]) cs)"

definition split_ws :: "string \<Rightarrow> string list" where
  "split_ws s = tokens [] s"

text \<open>\<open>sub in s\<close> on strings: \<open>sub\<close> occurs in \<open>s\<close> as a contiguous substring.\<close>

fun str_in :: "string \<Rightarrow> string \<Rightarrow> bool" where
  "str_in sub [] = (sub = [])"
| "str_in sub (c # cs) = (take (length sub) (c # cs) = sub \<or> str_in sub cs)"

section \<open>\<open>select_monitors\<close>\<close>

text \<open>
  The inner loop over the match list of one physical monitor. Each element of the list
  is a dict, of which the first item is used; an empty dict raises \<open>IndexError\<close>.
\<close>

fun match_found :: "hypr_monitor \<Rightarrow> (string \<times> jvalue) list list \<Rightarrow> error + bool" where
  "match_found mon [] = Inr True"
| "match_found mon (match_element # rest) =
     (case match_element of
        [] \<Rightarrow> Inl IndexError
      | (key, v) # _ \<Rightarrow>
          (case hfield mon key of
             None \<Rightarrow> Inr False
           | Some w \<Rightarrow> if \<not> py_eq w v then Inr False else match_found mon rest))"

fun selected_monitor :: "hypr_monitor list \<Rightarrow> (string \<times> jvalue) list list \<Rightarrow>
    error + hypr_monitor list" where
  "selected_monitor [] mt = Inr []"
| "selected_monitor (mon # mons) mt =
     (case match_found mon mt of
        Inl e \<Rightarrow> Inl e
      | Inr b \<Rightarrow>
          (case selected_monitor mons mt of
             Inl e \<Rightarrow> Inl e
           | Inr sel \<Rightarrow> Inr (if b then mon # sel else sel)))"

definition select_monitors :: "hypr_monitor list \<Rightarrow> (string \<times> jvalue) list list \<Rightarrow>
    error + hypr_monitor option" where
  "select_monitors mons mt =
     (case selected_monitor mons mt of
        Inl e \<Rightarrow> Inl e
      | Inr sel \<Rightarrow>
          if length sel > 1 then Inl Exit_Multiple_Monitors
          else Inr (case sel of [] \<Rightarrow> None | mon # _ \<Rightarrow> Some mon))"

section \<open>\<open>get_upmost_leftmost_monitor\<close>\<close>

text \<open>The result is the key of the monitor found; \<open>None\<close> when the loop ends without one.\<close>

fun get_upmost_leftmost_monitor :: "monitors \<Rightarrow> string option" where
  "get_upmost_leftmost_monitor [] = None"
| "get_upmost_leftmost_monitor ((n, m) # rest) =
     (if position m = Auto then get_upmost_leftmost_monitor rest
      else if \<not> truthy (above m) \<and> \<not> truthy (left m) then Some n
      else get_upmost_leftmost_monitor rest)"

section \<open>\<open>set_position\<close>\<close>

text \<open>\<open>int(resolution.split('x')[0])\<close> and \<open>int(resolution.split('x')[1])\<close>.\<close>

fun res_x :: "resolution \<Rightarrow> error + int" where
  "res_x NoRes = Inl AttributeError"
| "res_x Preferred = Inl ValueError"
| "res_x (Res w h) = Inr w"

fun res_y :: "resolution \<Rightarrow> error + int" where
  "res_y NoRes = Inl AttributeError"
| "res_y Preferred = Inl IndexError"
| "res_y (Res w h) = Inr h"

text \<open>Lines 305 to 315: the position handed to the monitor on the right.\<close>

definition next_position_right :: "monitor \<Rightarrow> monitor \<Rightarrow> int \<times> int \<Rightarrow> error + int \<times> int" where
  "next_position_right m right_monitor pos =
     (case res_x (resolution m) of
        Inl e \<Rightarrow> Inl e
      | Inr next_position_x \<Rightarrow>
          if align right_monitor = ''top'' then Inr (next_position_x, snd pos)
          else if align right_monitor = ''bottom'' then
            (case res_y (resolution m) of
               Inl e \<Rightarrow> Inl e
             | Inr h \<Rightarrow>
                 (case res_y (resolution right_monitor) of
                    Inl e \<Rightarrow> Inl e
                  | Inr rh \<Rightarrow> Inr (next_position_x, h - rh)))
          else
            (case res_y (resolution m) of
               Inl e \<Rightarrow> Inl e
             | Inr h \<Rightarrow>
                 (case res_y (resolution right_monitor) of
                    Inl e \<Rightarrow> Inl e
                  | Inr rh \<Rightarrow> Inr (next_position_x, (h - rh) div 2))))"

text \<open>Lines 323 to 334: the position handed to the monitor below.\<close>

definition next_position_below :: "monitor \<Rightarrow> monitor \<Rightarrow> int \<times> int \<Rightarrow> error + int \<times> int" where
  "next_position_below m below_monitor pos =
     (case (if align below_monitor = ''left'' then Inr (fst pos)
            else if align below_monitor = ''right'' then
              (case res_x (resolution m) of
                 Inl e \<Rightarrow> Inl e
               | Inr w \<Rightarrow>
                   (case res_x (resolution below_monitor) of
                      Inl e \<Rightarrow> Inl e
                    | Inr bw \<Rightarrow> Inr (w - bw)))
            else
              (case res_x (resolution m) of
                 Inl e \<Rightarrow> Inl e
               | Inr w \<Rightarrow>
                   (case res_x (resolution below_monitor) of
                      Inl e \<Rightarrow> Inl e
                    | Inr bw \<Rightarrow> Inr ((w - bw) div 2)))) of
        Inl e \<Rightarrow> Inl e
      | Inr next_position_x \<Rightarrow>
          (case res_y (resolution m) of
             Inl e \<Rightarrow> Inl e
           | Inr next_position_y \<Rightarrow> Inr (next_position_x, next_position_y)))"

text \<open>
  The recursive traversal. The monitor is named by its key; the first argument is the
  number of nested calls the interpreter still allows, and a call beyond it raises
  \<open>RecursionError\<close>. The traversal writes \<open>position\<close> attributes only, so the attributes
  \<open>below\<close> and \<open>resolution\<close> that the source reads from the monitor after the first
  recursive call are those read before it.
\<close>

fun set_position :: "nat \<Rightarrow> monitors \<Rightarrow> string \<Rightarrow> int \<times> int \<Rightarrow> error + monitors" where
  "set_position 0 ms n pos = Inl RecursionError"
| "set_position (Suc d) ms n pos =
     (case map_of ms n of
        None \<Rightarrow> Inl KeyError
      | Some m \<Rightarrow>
          (case (if truthy (right m) then
                   (case map_of ms (the (right m)) of
                      None \<Rightarrow> Inl KeyError
                    | Some right_monitor \<Rightarrow>
                        (case next_position_right m right_monitor pos of
                           Inl e \<Rightarrow> Inl e
                         | Inr next_position \<Rightarrow>
                             set_position d
                               (modify n (\<lambda>m. m\<lparr>position := At (fst pos) (snd pos)\<rparr>) ms)
                               (the (right m)) next_position))
                 else Inr (modify n (\<lambda>m. m\<lparr>position := At (fst pos) (snd pos)\<rparr>) ms)) of
             Inl e \<Rightarrow> Inl e
           | Inr ms1 \<Rightarrow>
               if truthy (below m) then
                 (case map_of ms1 (the (below m)) of
                    None \<Rightarrow> Inl KeyError
                  | Some below_monitor \<Rightarrow>
                      (case next_position_below m below_monitor pos of
                         Inl e \<Rightarrow> Inl e
                       | Inr next_position \<Rightarrow>
                           set_position d ms1 (the (below m)) next_position))
               else Inr ms1))"

section \<open>\<open>setup_monitors\<close>\<close>

text \<open>
  Lines 381 to 399, the first loop over \<open>config['monitors']\<close>: every configured name
  whose match selects a physical monitor gets a fresh \<open>Monitor\<close> with its resolution
  and, when declared, its alignment. A name whose match selects nothing is skipped.
\<close>

fun match_config :: "config \<Rightarrow> hypr_monitor list \<Rightarrow> monitors \<Rightarrow> error + monitors" where
  "match_config [] hyprctl_monitors ms = Inr ms"
| "match_config ((n, c) # rest) hyprctl_monitors ms =
     (case c_match c of
        None \<Rightarrow> Inl (Exit_No_Match n)
      | Some mt \<Rightarrow>
          (case select_monitors hyprctl_monitors mt of
             Inl e \<Rightarrow> Inl e
           | Inr None \<Rightarrow> match_config rest hyprctl_monitors ms
           | Inr (Some sel) \<Rightarrow>
               (case c_align c of
                  None \<Rightarrow>
                    match_config rest hyprctl_monitors
                      (AList.update n
                         ((Monitor (hname sel) n)\<lparr>resolution := Res (hwidth sel) (hheight sel)\<rparr>)
                         ms)
                | Some a \<Rightarrow>
                    (case set_align
                            ((Monitor (hname sel) n)\<lparr>resolution := Res (hwidth sel) (hheight sel)\<rparr>)
                            a of
                       Inl e \<Rightarrow> Inl e
                     | Inr m \<Rightarrow> match_config rest hyprctl_monitors (AList.update n m ms)))))"

text \<open>
  Lines 409 to 431: the position directive of monitor \<open>n\<close>. The second word of the
  directive names the other monitor; five independent \<open>if\<close> statements, each testing
  whether a keyword occurs anywhere in the directive, follow one another.
\<close>

definition wire_above :: "string \<Rightarrow> string \<Rightarrow> monitors \<Rightarrow> monitors" where
  "wire_above n relative_to ms =
     modify relative_to (\<lambda>m. m\<lparr>above := Some n\<rparr>) (modify n (\<lambda>m. m\<lparr>below := Some relative_to\<rparr>) ms)"

definition wire_below :: "string \<Rightarrow> string \<Rightarrow> monitors \<Rightarrow> monitors" where
  "wire_below n relative_to ms =
     modify relative_to (\<lambda>m. m\<lparr>below := Some n\<rparr>) (modify n (\<lambda>m. m\<lparr>above := Some relative_to\<rparr>) ms)"

definition wire_left_of :: "string \<Rightarrow> string \<Rightarrow> monitors \<Rightarrow> monitors" where
  "wire_left_of n relative_to ms =
     modify relative_to (\<lambda>m. m\<lparr>left := Some n\<rparr>) (modify n (\<lambda>m. m\<lparr>right := Some relative_to\<rparr>) ms)"

definition wire_right_of :: "string \<Rightarrow> string \<Rightarrow> monitors \<Rightarrow> monitors" where
  "wire_right_of n relative_to ms =
     modify relative_to (\<lambda>m. m\<lparr>right := Some n\<rparr>) (modify n (\<lambda>m. m\<lparr>left := Some relative_to\<rparr>) ms)"

definition wire_same_as :: "string \<Rightarrow> string \<Rightarrow> monitors \<Rightarrow> error + monitors" where
  "wire_same_as n relative_to ms =
     (case map_of ms relative_to of
        None \<Rightarrow> Inl KeyError
      | Some r \<Rightarrow>
          Inr (modify n
                 (\<lambda>m. m\<lparr>position := Auto, resolution := Preferred, scale := JStr ''1'',
                        extra := Some (''mirror,'' @ mid r)\<rparr>)
                 ms))"

text \<open>Lines 415 to 426: the four direction keywords, tested one after the other.\<close>

definition wire_directions :: "string \<Rightarrow> string \<Rightarrow> string \<Rightarrow> monitors \<Rightarrow> monitors" where
  "wire_directions n relative_to pos ms =
     (let ms1 = (if str_in ''above'' pos then wire_above n relative_to ms else ms);
          ms2 = (if str_in ''below'' pos then wire_below n relative_to ms1 else ms1);
          ms3 = (if str_in ''left-of'' pos then wire_left_of n relative_to ms2 else ms2)
      in if str_in ''right-of'' pos then wire_right_of n relative_to ms3 else ms3)"

definition wire_position :: "monitors \<Rightarrow> string \<Rightarrow> string \<Rightarrow> error + monitors" where
  "wire_position ms n pos =
     (case split_ws pos of
        _ # relative_to # _ \<Rightarrow>
          if map_of ms relative_to = None then Inl (Exit_Not_Found relative_to)
          else if str_in ''same-as'' pos
            then wire_same_as n relative_to (wire_directions n relative_to pos ms)
            else Inr (wire_directions n relative_to pos ms)
      | _ \<Rightarrow> Inl IndexError)"

text \<open>Lines 402 to 434, the second loop over \<open>config['monitors']\<close>.\<close>

fun organize :: "config \<Rightarrow> monitors \<Rightarrow> error + monitors" where
  "organize [] ms = Inr ms"
| "organize ((n, c) # rest) ms =
     (if map_of ms n = None then organize rest ms
      else
        (case (case c_position c of
                 None \<Rightarrow> Inr ms
               | Some pos \<Rightarrow> wire_position ms n pos) of
           Inl e \<Rightarrow> Inl e
         | Inr ms1 \<Rightarrow>
             organize rest
               (case c_scale c of
                  None \<Rightarrow> ms1
                | Some s \<Rightarrow> modify n (\<lambda>m. m\<lparr>scale := s\<rparr>) ms1)))"

text \<open>The Display Record mapping that lines 375 to 434 construct.\<close>

definition build_monitors :: "config \<Rightarrow> hypr_monitor list \<Rightarrow> error + monitors" where
  "build_monitors cfg hyprctl_monitors =
     (case match_config cfg hyprctl_monitors [] of
        Inl e \<Rightarrow> Inl e
      | Inr ms \<Rightarrow> organize cfg ms)"

text \<open>
  Lines 444 and 445: the list comprehensions over the monitors whose position is not
  \<open>auto\<close>. A position that is still \<open>None\<close> has no \<open>split\<close>.
\<close>

fun positions :: "monitors \<Rightarrow> error + (int \<times> int) list" where
  "positions [] = Inr []"
| "positions ((n, m) # rest) =
     (case position m of
        Auto \<Rightarrow> positions rest
      | Unset \<Rightarrow> Inl AttributeError
      | At x y \<Rightarrow>
          (case positions rest of
             Inl e \<Rightarrow> Inl e
           | Inr ps \<Rightarrow> Inr ((x, y) # ps)))"

text \<open>\<open>min\<close> of a list; the empty list raises \<open>ValueError\<close>.\<close>

fun py_min :: "int list \<Rightarrow> error + int" where
  "py_min [] = Inl ValueError"
| "py_min (x # xs) = Inr (fold min xs x)"

text \<open>
  Lines 451 to 454 and 456 to 459: the two shifting loops run over every monitor of the
  mapping; \<open>int('auto')\<close> raises \<open>ValueError\<close>.
\<close>

fun shift_x :: "int \<Rightarrow> monitors \<Rightarrow> error + monitors" where
  "shift_x min_x [] = Inr []"
| "shift_x min_x ((n, m) # rest) =
     (case position m of
        Unset \<Rightarrow> Inl AttributeError
      | Auto \<Rightarrow> Inl ValueError
      | At x y \<Rightarrow>
          (case shift_x min_x rest of
             Inl e \<Rightarrow> Inl e
           | Inr ms \<Rightarrow> Inr ((n, m\<lparr>position := At (x - min_x) y\<rparr>) # ms)))"

fun shift_y :: "int \<Rightarrow> monitors \<Rightarrow> error + monitors" where
  "shift_y min_y [] = Inr []"
| "shift_y min_y ((n, m) # rest) =
     (case position m of
        Unset \<Rightarrow> Inl AttributeError
      | Auto \<Rightarrow> Inl ValueError
      | At x y \<Rightarrow>
          (case shift_y min_y rest of
             Inl e \<Rightarrow> Inl e
           | Inr ms \<Rightarrow> Inr ((n, m\<lparr>position := At x (y - min_y)\<rparr>) # ms)))"

text \<open>Lines 443 to 459: the normalization of negative coordinates.\<close>

definition normalize :: "monitors \<Rightarrow> error + monitors" where
  "normalize ms =
     (case positions ms of
        Inl e \<Rightarrow> Inl e
      | Inr ps \<Rightarrow>
          (case py_min (map fst ps) of
             Inl e \<Rightarrow> Inl e
           | Inr min_x \<Rightarrow>
               (case py_min (map snd ps) of
                  Inl e \<Rightarrow> Inl e
                | Inr min_y \<Rightarrow>
                    (case (if min_x < 0 then shift_x min_x ms else Inr ms) of
                       Inl e \<Rightarrow> Inl e
                     | Inr ms1 \<Rightarrow> if min_y < 0 then shift_y min_y ms1 else Inr ms1))))"

text \<open>
  Lines 441 to 459 from a given anchor, and lines 436 to 459. Without an anchor
  \<open>set_position\<close> is called on \<open>None\<close>, whose first statement raises \<open>AttributeError\<close>.
\<close>

definition resolve_from :: "nat \<Rightarrow> monitors \<Rightarrow> string \<Rightarrow> error + monitors" where
  "resolve_from d ms anchor =
     (case set_position d ms anchor (0, 0) of
        Inl e \<Rightarrow> Inl e
      | Inr ms1 \<Rightarrow> normalize ms1)"

definition resolve_layout :: "nat \<Rightarrow> monitors \<Rightarrow> error + monitors" where
  "resolve_layout d ms =
     (case get_upmost_leftmost_monitor ms of
        None \<Rightarrow> Inl AttributeError
      | Some anchor \<Rightarrow> resolve_from d ms anchor)"

text \<open>
  \<open>apply_configuration\<close>: the words of the \<open>hyprctl keyword monitor\<close> directive, as the
  attributes they are printed from.
\<close>

definition apply_configuration ::
    "monitor \<Rightarrow> string \<times> resolution \<times> position \<times> jvalue \<times> string option" where
  "apply_configuration m =
     (mid m, resolution m, position m, scale m,
      (case extra m of None \<Rightarrow> None | Some e \<Rightarrow> if e = [] then None else Some e))"

text \<open>
  The whole pass. The result is the list of directives applied, one per monitor of the
  mapping and in its order, or the error that ended the pass before anything was applied.
  \<open>d\<close> is the recursion depth available to \<open>set_position\<close>.
\<close>

definition setup_monitors ::
    "nat \<Rightarrow> config \<Rightarrow> hypr_monitor list \<Rightarrow>
     error + (string \<times> string \<times> resolution \<times> position \<times> jvalue \<times> string option) list" where
  "setup_monitors d cfg hyprctl_monitors =
     (case build_monitors cfg hyprctl_monitors of
        Inl e \<Rightarrow> Inl e
      | Inr ms \<Rightarrow>
          (case resolve_layout d ms of
             Inl e \<Rightarrow> Inl e
           | Inr ms1 \<Rightarrow> Inr (map (\<lambda>(n, m). (n, apply_configuration m)) ms1)))"

section \<open>Notions used in the statements\<close>

text \<open>The mapping with every position erased: what the traversal reads of it.\<close>

definition unplaced :: "monitors \<Rightarrow> monitors" where
  "unplaced ms = map (\<lambda>(k, m). (k, m\<lparr>position := Unset\<rparr>)) ms"

text \<open>
  A candidate for the anchor, in the words of the specification: its position is not
  \<open>auto\<close> and it has neither an \<open>above\<close> nor a \<open>left\<close> neighbour.
\<close>

definition is_candidate :: "monitor \<Rightarrow> bool" where
  "is_candidate m = (position m \<noteq> Auto \<and> \<not> truthy (above m) \<and> \<not> truthy (left m))"

text \<open>\<open>k\<close> is the \<open>right\<close> or the \<open>below\<close> neighbour of some monitor of the mapping.\<close>

definition is_target :: "string \<Rightarrow> monitors \<Rightarrow> bool" where
  "is_target k ms =
     (\<exists>(k', m') \<in> set ms. (truthy (right m') \<and> right m' = Some k) \<or>
                           (truthy (below m') \<and> below m' = Some k))"

text \<open>
  A consequence of the mutual consistency of the directional relations (if A.right = B
  then B.left = A): a monitor that is the \<open>right\<close> or \<open>below\<close> neighbour of another has
  a \<open>left\<close> or an \<open>above\<close> neighbour itself.
\<close>

definition neighbours_consistent :: "monitors \<Rightarrow> bool" where
  "neighbours_consistent ms =
     (\<forall>(k, m) \<in> set ms. is_target k ms \<longrightarrow> truthy (left m) \<or> truthy (above m))"

section \<open>Example configurations\<close>

text \<open>A physical monitor with a name and a size, and a configuration entry matching on the name.\<close>

definition hypr :: "string \<Rightarrow> int \<Rightarrow> int \<Rightarrow> hypr_monitor" where
  "hypr n w h = \<lparr>hname = n, hwidth = w, hheight = h, hother = []\<rparr>"

definition by_name ::
    "string \<Rightarrow> string option \<Rightarrow> string option \<Rightarrow> jvalue option \<Rightarrow> monitor_config" where
  "by_name n a p s =
     \<lparr>c_match = Some [[(''name'', JStr n)]], c_align = a, c_position = p, c_scale = s\<rparr>"

text \<open>Three monitors of the same size in a row: B right of A, C right of B.\<close>

definition row_config :: config where
  "row_config =
     [(''A'', by_name ''DP-1'' None None None),
      (''B'', by_name ''DP-2'' None (Some ''right-of A'') None),
      (''C'', by_name ''DP-3'' None (Some ''right-of B'') None)]"

definition row_hyprctl :: "hypr_monitor list" where
  "row_hyprctl = [hypr ''DP-1'' 1920 1080, hypr ''DP-2'' 1920 1080, hypr ''DP-3'' 1920 1080]"







text \<open>
  A taller monitor B right of A, centred, and a mirror M of A; and a wider monitor D
  below A, centred, and a mirror M of A.
\<close>

definition taller_config :: config where
  "taller_config =
     [(''A'', by_name ''DP-1'' None None None),
      (''B'', by_name ''DP-2'' None (Some ''right-of A'') None),
      (''M'', by_name ''DP-3'' None (Some ''same-as A'') None)]"

definition wider_config :: config where
  "wider_config =
     [(''A'', by_name ''DP-1'' None None None),
      (''D'', by_name ''DP-2'' None (Some ''below A'') None),
      (''M'', by_name ''DP-3'' None (Some ''same-as A'') None)]"

definition big_second_hyprctl :: "hypr_monitor list" where
  "big_second_hyprctl = [hypr ''DP-1'' 1920 1080, hypr ''DP-2'' 2560 1440, hypr ''DP-3'' 1920 1080]"


definition cycle_hyprctl :: "hypr_monitor list" where
  "cycle_hyprctl = [hypr ''DP-1'' 1920 1080, hypr ''DP-2'' 1920 1080]"



text \<open>Two monitors with no position directive, and the mapping built from them.\<close>

definition unrelated_config :: config where
  "unrelated_config =
     [(''A'', by_name ''DP-1'' None None None), (''B'', by_name ''DP-2'' None None None)]"

definition unrelated_monitors :: monitors where
  "unrelated_monitors =
     [(''A'', (Monitor ''DP-1'' ''A'')\<lparr>resolution := Res 1920 1080\<rparr>),
      (''B'', (Monitor ''DP-2'' ''B'')\<lparr>resolution := Res 1920 1080\<rparr>)]"

text \<open>
  A monitor named by the empty string and declared left of X, the mapping built from
  that configuration, and the mapping after the layout is resolved.
\<close>

definition empty_name_config :: config where
  "empty_name_config =
     [([], by_name ''DP-1'' None (Some ''left-of X'') None),
      (''X'', by_name ''DP-2'' None None None)]"

definition empty_name_monitors :: monitors where
  "empty_name_monitors =
     [([], (Monitor ''DP-1'' [])\<lparr>resolution := Res 1920 1080, right := Some ''X''\<rparr>),
      (''X'', (Monitor ''DP-2'' ''X'')\<lparr>resolution := Res 1920 1080, left := Some []\<rparr>)]"

definition empty_name_resolved :: monitors where
  "empty_name_resolved =
     [([],
       (Monitor ''DP-1'' [])
         \<lparr>resolution := Res 1920 1080, right := Some ''X'', position := At 0 0\<rparr>),
      (''X'',
       (Monitor ''DP-2'' ''X'')
         \<lparr>resolution := Res 1920 1080, left := Some [], position := At 1920 0\<rparr>)]"



text \<open>
  B right of A, centred and taller, as the configuration loops leave the mapping, and
  the same mapping after the layout is resolved.
\<close>

definition pair_monitors :: monitors where
  "pair_monitors =
     [(''A'', (Monitor ''DP-1'' ''A'')\<lparr>resolution := Res 1920 1080, right := Some ''B''\<rparr>),
      (''B'', (Monitor ''DP-2'' ''B'')\<lparr>resolution := Res 2560 1440, left := Some ''A''\<rparr>)]"

definition pair_resolved :: monitors where
  "pair_resolved =
     [(''A'',
       (Monitor ''DP-1'' ''A'')
         \<lparr>resolution := Res 1920 1080, right := Some ''B'', position := At 0 180\<rparr>),
      (''B'',
       (Monitor ''DP-2'' ''B'')
         \<lparr>resolution := Res 2560 1440, left := Some ''A'', position := At 1920 0\<rparr>)]"

section \<open>Facts about the mapping and the two configuration loops\<close>













section \<open>Claim C2: a directive that names an unmatched monitor\<close>




section \<open>Claim C4: an alignment outside the five names\<close>





section \<open>Claim C10: the keywords of a position directive\<close>






section \<open>Claim C1: the positions handed on by the traversal\<close>

text \<open>
  C1 fails on the code for a monitor that is not at the origin. In a row of three
  monitors of width 1920, C is right of B and B is at x = 1920, so that the claim puts
  C at x = 1920 + 1920; \<open>set_position\<close> hands C the width of B alone, and C is applied
  at the position of B.
\<close>

theorem row_third_monitor_overlaps:
  "setup_monitors 100 row_config row_hyprctl =
     Inr [(''A'', ''DP-1'', Res 1920 1080, At 0 0, JInt 1, None),
          (''B'', ''DP-2'', Res 1920 1080, At 1920 0, JInt 1, None),
          (''C'', ''DP-3'', Res 1920 1080, At 1920 0, JInt 1, None)]"
  by code_simp

section \<open>Claims C5 and C6: normalization in the presence of a mirror\<close>

text \<open>
  C5 fails on the code when a minimum is negative. B is taller than A and centred right
  of it, so its y is negative; M mirrors A and has the position \<open>auto\<close>. The loop that
  shifts the y coordinates runs over every monitor, reads the position of M as a pair of
  integers and raises \<open>ValueError\<close>: the pass ends and M is not passed on unchanged.
\<close>

theorem mirror_breaks_y_shift:
  "setup_monitors 100 taller_config big_second_hyprctl = Inl ValueError"
  by code_simp

text \<open>
  C6 fails on the code for the same reason. D is wider than A and centred below it, so
  its x is negative; with the mirror M in the mapping the loop that shifts the x
  coordinates raises \<open>ValueError\<close>, and no minimum becomes zero.
\<close>

theorem mirror_breaks_x_shift:
  "setup_monitors 100 wider_config big_second_hyprctl = Inl ValueError"
  by code_simp

section \<open>Claim C3: the record of a mirror\<close>






lemma wire_position_Inr:
  assumes "wire_position ms n pos = Inr ms'"
  shows "\<exists>t r rest. split_ws pos = t # r # rest \<and> map_of ms r \<noteq> None \<and>
          (if str_in ''same-as'' pos
           then wire_same_as n r (wire_directions n r pos ms) = Inr ms'
           else ms' = wire_directions n r pos ms)"
proof (cases "split_ws pos")
  case Nil
  with assms show ?thesis by (simp add: wire_position_def)
next
  case (Cons t ts)
  show ?thesis
  proof (cases ts)
    case Nil
    with Cons assms show ?thesis by (simp add: wire_position_def)
  next
    case (Cons r rest)
    with \<open>split_ws pos = t # ts\<close> assms show ?thesis
      by (simp add: wire_position_def split: if_splits)
  qed
qed



lemma organize_step:
  assumes "organize ((n, c) # cfg) ms = Inr ms'" "map_of ms n \<noteq> None"
  obtains ms1 where
    "(case c_position c of None \<Rightarrow> Inr ms | Some pos \<Rightarrow> wire_position ms n pos) = Inr ms1"
    "organize cfg (case c_scale c of None \<Rightarrow> ms1 | Some s \<Rightarrow> modify n (\<lambda>m. m\<lparr>scale := s\<rparr>) ms1) = Inr ms'"
proof (cases "case c_position c of None \<Rightarrow> Inr ms | Some pos \<Rightarrow> wire_position ms n pos")
  case (Inl e)
  with assms show ?thesis by auto
next
  case (Inr ms1)
  with assms have "organize cfg (case c_scale c of None \<Rightarrow> ms1 | Some s \<Rightarrow> modify n (\<lambda>m. m\<lparr>scale := s\<rparr>) ms1) = Inr ms'"
    by auto
  with Inr show ?thesis by (rule that)
qed














section \<open>Claim C7: two monitors left of each other\<close>

lemma tokens_nonempty: "t \<in> set (tokens cur s) \<Longrightarrow> t \<noteq> []"
  by (induction s arbitrary: cur) (auto split: if_splits)

lemma split_ws_second_nonempty: "split_ws pos = t # r # rest \<Longrightarrow> r \<noteq> []"
  using tokens_nonempty[of r "[]" pos] by (simp add: split_ws_def)









section \<open>The traversal reads no position\<close>

lemma unplaced_modify_position:
  "unplaced (modify n (\<lambda>m. m\<lparr>position := P\<rparr>) ms) = unplaced ms"
  by (induction ms) (auto simp: unplaced_def modify_def)

lemma map_of_unplaced:
  "map_of (unplaced ms) k = map_option (\<lambda>m. m\<lparr>position := Unset\<rparr>) (map_of ms k)"
  by (induction ms) (auto simp: unplaced_def)

lemma length_unplaced: "length (unplaced ms) = length ms"
  by (simp add: unplaced_def)

lemma set_position_Suc_Inr:
  "set_position (Suc d) ms n p = Inr r \<longleftrightarrow>
   (\<exists>m ms1. map_of ms n = Some m \<and>
      (if truthy (right m)
       then \<exists>rm np. map_of ms (the (right m)) = Some rm \<and> next_position_right m rm p = Inr np \<and>
              set_position d (modify n (\<lambda>m. m\<lparr>position := At (fst p) (snd p)\<rparr>) ms)
                (the (right m)) np = Inr ms1
       else ms1 = modify n (\<lambda>m. m\<lparr>position := At (fst p) (snd p)\<rparr>) ms) \<and>
      (if truthy (below m)
       then \<exists>bm np. map_of ms1 (the (below m)) = Some bm \<and> next_position_below m bm p = Inr np \<and>
              set_position d ms1 (the (below m)) np = Inr r
       else r = ms1))"
  by (auto split: option.splits sum.splits)

lemma set_position_unplaced:
  "set_position d ms n p = Inr r \<Longrightarrow> unplaced r = unplaced ms"
proof (induction d arbitrary: ms n p r)
  case 0
  then show ?case by simp
next
  case (Suc d)
  from Suc.prems obtain m ms1 where m: "map_of ms n = Some m"
    and R: "if truthy (right m)
       then \<exists>rm np. map_of ms (the (right m)) = Some rm \<and> next_position_right m rm p = Inr np \<and>
              set_position d (modify n (\<lambda>m. m\<lparr>position := At (fst p) (snd p)\<rparr>) ms)
                (the (right m)) np = Inr ms1
       else ms1 = modify n (\<lambda>m. m\<lparr>position := At (fst p) (snd p)\<rparr>) ms"
    and B: "if truthy (below m)
       then \<exists>bm np. map_of ms1 (the (below m)) = Some bm \<and> next_position_below m bm p = Inr np \<and>
              set_position d ms1 (the (below m)) np = Inr r
       else r = ms1"
    unfolding set_position_Suc_Inr by blast
  have 1: "unplaced ms1 = unplaced ms"
    using R Suc.IH by (auto simp: unplaced_modify_position split: if_splits)
  have "unplaced r = unplaced ms1"
    using B Suc.IH by (auto split: if_splits)
  with 1 show ?case by simp
qed

lemma erase_position_fields:
  assumes "m2\<lparr>position := Unset\<rparr> = (m :: monitor)\<lparr>position := Unset\<rparr>"
  shows "right m2 = right m" "below m2 = below m" "resolution m2 = resolution m"
    "align m2 = align m"
  using assms by (cases m, cases m2, simp)+

lemma unplaced_eq_keys: "unplaced ms2 = unplaced ms \<Longrightarrow> map fst ms2 = map fst ms"
proof -
  assume "unplaced ms2 = unplaced ms"
  then have "map fst (unplaced ms2) = map fst (unplaced ms)" by simp
  then show ?thesis by (simp add: unplaced_def comp_def case_prod_beta)
qed

lemma unplaced_eq_length: "unplaced ms2 = unplaced ms \<Longrightarrow> length ms2 = length ms"
  using length_unplaced by metis

lemma unplaced_eq_lookup:
  assumes "unplaced ms2 = unplaced ms" "map_of ms k = Some m"
  shows "\<exists>m2. map_of ms2 k = Some m2 \<and> m2\<lparr>position := Unset\<rparr> = m\<lparr>position := Unset\<rparr>"
proof -
  have "map_of (unplaced ms2) k = map_of (unplaced ms) k" using assms(1) by simp
  with assms(2) show ?thesis by (auto simp: map_of_unplaced)
qed

lemma next_position_right_erase:
  assumes "m2\<lparr>position := Unset\<rparr> = m\<lparr>position := Unset\<rparr>"
    "rm2\<lparr>position := Unset\<rparr> = rm\<lparr>position := Unset\<rparr>"
  shows "next_position_right m2 rm2 p = next_position_right m rm p"
  unfolding next_position_right_def
    erase_position_fields(3)[OF assms(1)] erase_position_fields(3,4)[OF assms(2)] ..

lemma next_position_below_erase:
  assumes "m2\<lparr>position := Unset\<rparr> = m\<lparr>position := Unset\<rparr>"
    "bm2\<lparr>position := Unset\<rparr> = bm\<lparr>position := Unset\<rparr>"
  shows "next_position_below m2 bm2 p = next_position_below m bm p"
  unfolding next_position_below_def
    erase_position_fields(3)[OF assms(1)] erase_position_fields(3,4)[OF assms(2)] ..

lemma nth_modify_position:
  "i < length ms \<Longrightarrow>
   position (snd (modify n (\<lambda>m. m\<lparr>position := P\<rparr>) ms ! i)) =
     (if fst (ms ! i) = n then P else position (snd (ms ! i)))"
  by (simp add: modify_def case_prod_beta)

lemma length_modify: "length (modify n f ms) = length ms"
  by (simp add: modify_def)

lemma set_position_positions_independent:
  assumes "unplaced ms2 = unplaced ms" "set_position d ms n p = Inr r"
  shows "\<exists>r2. set_position d ms2 n p = Inr r2 \<and>
           (\<forall>i<length ms.
              position (snd (r ! i)) = position (snd (r2 ! i)) \<or>
              position (snd (r ! i)) = position (snd (ms ! i)) \<and>
              position (snd (r2 ! i)) = position (snd (ms2 ! i)))"
  using assms
proof (induction d arbitrary: ms ms2 n p r)
  case 0
  then show ?case by simp
next
  case (Suc d)
  let ?P = "At (fst p) (snd p)"
  let ?ms0 = "modify n (\<lambda>m. m\<lparr>position := ?P\<rparr>) ms"
  let ?ms0' = "modify n (\<lambda>m. m\<lparr>position := ?P\<rparr>) ms2"
  from Suc.prems(2) obtain m ms1 where m: "map_of ms n = Some m"
    and R: "if truthy (right m)
       then \<exists>rm np. map_of ms (the (right m)) = Some rm \<and> next_position_right m rm p = Inr np \<and>
              set_position d ?ms0 (the (right m)) np = Inr ms1
       else ms1 = ?ms0"
    and B: "if truthy (below m)
       then \<exists>bm np. map_of ms1 (the (below m)) = Some bm \<and> next_position_below m bm p = Inr np \<and>
              set_position d ms1 (the (below m)) np = Inr r
       else r = ms1"
    unfolding set_position_Suc_Inr by blast
  from unplaced_eq_lookup[OF Suc.prems(1) m] obtain m2 where
    m2: "map_of ms2 n = Some m2" and e: "m2\<lparr>position := Unset\<rparr> = m\<lparr>position := Unset\<rparr>"
    by blast
  note f = erase_position_fields[OF e]
  have len: "length ms2 = length ms" by (rule unplaced_eq_length[OF Suc.prems(1)])
  have keys: "map fst ms2 = map fst ms" by (rule unplaced_eq_keys[OF Suc.prems(1)])
  have key: "fst (ms2 ! i) = fst (ms ! i)" if "i < length ms" for i
    using that len arg_cong[OF keys, of "\<lambda>xs. xs ! i"] by simp
  have u0: "unplaced ?ms0' = unplaced ?ms0"
    using Suc.prems(1) by (simp add: unplaced_modify_position)
  have rel0: "position (snd (?ms0 ! i)) = position (snd (?ms0' ! i)) \<or>
      position (snd (?ms0 ! i)) = position (snd (ms ! i)) \<and>
      position (snd (?ms0' ! i)) = position (snd (ms2 ! i))" if "i < length ms" for i
    using that len key[OF that] by (simp add: nth_modify_position)
  have "\<exists>ms1'. (if truthy (right m2)
       then \<exists>rm np. map_of ms2 (the (right m2)) = Some rm \<and> next_position_right m2 rm p = Inr np \<and>
              set_position d ?ms0' (the (right m2)) np = Inr ms1'
       else ms1' = ?ms0') \<and>
      (\<forall>i<length ms.
          position (snd (ms1 ! i)) = position (snd (ms1' ! i)) \<or>
          position (snd (ms1 ! i)) = position (snd (ms ! i)) \<and>
          position (snd (ms1' ! i)) = position (snd (ms2 ! i)))"
  proof (cases "truthy (right m)")
    case False
    with R f(1) rel0 show ?thesis by auto
  next
    case True
    with R obtain rm np where rm: "map_of ms (the (right m)) = Some rm"
      "next_position_right m rm p = Inr np" "set_position d ?ms0 (the (right m)) np = Inr ms1"
      by auto
    from unplaced_eq_lookup[OF Suc.prems(1) rm(1)] obtain rm2 where
      rm2: "map_of ms2 (the (right m)) = Some rm2"
        "rm2\<lparr>position := Unset\<rparr> = rm\<lparr>position := Unset\<rparr>"
      by blast
    have np2: "next_position_right m2 rm2 p = Inr np"
      using next_position_right_erase[OF e rm2(2)] rm(2) by simp
    from Suc.IH[OF u0 rm(3)] obtain ms1' where
      c: "set_position d ?ms0' (the (right m)) np = Inr ms1'"
      and rel: "\<forall>i<length ?ms0.
          position (snd (ms1 ! i)) = position (snd (ms1' ! i)) \<or>
          position (snd (ms1 ! i)) = position (snd (?ms0 ! i)) \<and>
          position (snd (ms1' ! i)) = position (snd (?ms0' ! i))"
      by blast
    have "position (snd (ms1 ! i)) = position (snd (ms1' ! i)) \<or>
          position (snd (ms1 ! i)) = position (snd (ms ! i)) \<and>
          position (snd (ms1' ! i)) = position (snd (ms2 ! i))" if "i < length ms" for i
      using rel[rule_format, of i] rel0[OF that] that by (auto simp: length_modify)
    then have rel': "\<forall>i<length ms.
          position (snd (ms1 ! i)) = position (snd (ms1' ! i)) \<or>
          position (snd (ms1 ! i)) = position (snd (ms ! i)) \<and>
          position (snd (ms1' ! i)) = position (snd (ms2 ! i))"
      by blast
    have t2: "truthy (right m2)" using True f(1) by simp
    have "\<exists>rm np. map_of ms2 (the (right m2)) = Some rm \<and> next_position_right m2 rm p = Inr np \<and>
              set_position d ?ms0' (the (right m2)) np = Inr ms1'"
      unfolding f(1) using rm2(1) np2 c by blast
    with t2 rel' show ?thesis by (intro exI[of _ ms1']) simp
  qed
  then obtain ms1' where R': "if truthy (right m2)
       then \<exists>rm np. map_of ms2 (the (right m2)) = Some rm \<and> next_position_right m2 rm p = Inr np \<and>
              set_position d ?ms0' (the (right m2)) np = Inr ms1'
       else ms1' = ?ms0'"
    and rel1: "\<forall>i<length ms.
          position (snd (ms1 ! i)) = position (snd (ms1' ! i)) \<or>
          position (snd (ms1 ! i)) = position (snd (ms ! i)) \<and>
          position (snd (ms1' ! i)) = position (snd (ms2 ! i))"
    by blast
  have u1: "unplaced ms1 = unplaced ms"
    using R by (auto simp: unplaced_modify_position dest: set_position_unplaced split: if_splits)
  have u1': "unplaced ms1' = unplaced ms2"
    using R' by (auto simp: unplaced_modify_position dest: set_position_unplaced split: if_splits)
  have u11: "unplaced ms1' = unplaced ms1" using u1 u1' Suc.prems(1) by simp
  have len1: "length ms1 = length ms" by (rule unplaced_eq_length[OF u1])
  have "\<exists>r2. (if truthy (below m2)
       then \<exists>bm np. map_of ms1' (the (below m2)) = Some bm \<and> next_position_below m2 bm p = Inr np \<and>
              set_position d ms1' (the (below m2)) np = Inr r2
       else r2 = ms1') \<and>
      (\<forall>i<length ms.
          position (snd (r ! i)) = position (snd (r2 ! i)) \<or>
          position (snd (r ! i)) = position (snd (ms ! i)) \<and>
          position (snd (r2 ! i)) = position (snd (ms2 ! i)))"
  proof (cases "truthy (below m)")
    case False
    with B f(2) rel1 show ?thesis by auto
  next
    case True
    with B obtain bm np where bm: "map_of ms1 (the (below m)) = Some bm"
      "next_position_below m bm p = Inr np" "set_position d ms1 (the (below m)) np = Inr r"
      by auto
    from unplaced_eq_lookup[OF u11 bm(1)] obtain bm2 where
      bm2: "map_of ms1' (the (below m)) = Some bm2"
        "bm2\<lparr>position := Unset\<rparr> = bm\<lparr>position := Unset\<rparr>"
      by blast
    have np2: "next_position_below m2 bm2 p = Inr np"
      using next_position_below_erase[OF e bm2(2)] bm(2) by simp
    from Suc.IH[OF u11 bm(3)] obtain r2 where
      c: "set_position d ms1' (the (below m)) np = Inr r2"
      and rel: "\<forall>i<length ms1.
          position (snd (r ! i)) = position (snd (r2 ! i)) \<or>
          position (snd (r ! i)) = position (snd (ms1 ! i)) \<and>
          position (snd (r2 ! i)) = position (snd (ms1' ! i))"
      by blast
    have "position (snd (r ! i)) = position (snd (r2 ! i)) \<or>
          position (snd (r ! i)) = position (snd (ms ! i)) \<and>
          position (snd (r2 ! i)) = position (snd (ms2 ! i))" if "i < length ms" for i
      using rel[rule_format, of i] rel1[rule_format, OF that] that len1 by auto
    then have rel': "\<forall>i<length ms.
          position (snd (r ! i)) = position (snd (r2 ! i)) \<or>
          position (snd (r ! i)) = position (snd (ms ! i)) \<and>
          position (snd (r2 ! i)) = position (snd (ms2 ! i))"
      by blast
    have t2: "truthy (below m2)" using True f(2) by simp
    have "\<exists>bm np. map_of ms1' (the (below m2)) = Some bm \<and> next_position_below m2 bm p = Inr np \<and>
              set_position d ms1' (the (below m2)) np = Inr r2"
      unfolding f(2) using bm2(1) np2 c by blast
    with t2 rel' show ?thesis by (intro exI[of _ r2]) simp
  qed
  then obtain r2 where B': "if truthy (below m2)
       then \<exists>bm np. map_of ms1' (the (below m2)) = Some bm \<and> next_position_below m2 bm p = Inr np \<and>
              set_position d ms1' (the (below m2)) np = Inr r2
       else r2 = ms1'"
    and rel2: "\<forall>i<length ms.
          position (snd (r ! i)) = position (snd (r2 ! i)) \<or>
          position (snd (r ! i)) = position (snd (ms ! i)) \<and>
          position (snd (r2 ! i)) = position (snd (ms2 ! i))"
    by blast
  have "set_position (Suc d) ms2 n p = Inr r2"
    unfolding set_position_Suc_Inr using m2 R' B' by blast
  with rel2 show ?case by blast
qed

section \<open>Claim C8: resolving twice\<close>

lemma shift_x_no_auto:
  "shift_x c ms = Inr ms' \<Longrightarrow> (k, m) \<in> set ms \<Longrightarrow> position m \<noteq> Auto"
  by (induction ms arbitrary: ms') (auto split: position.splits sum.splits)

lemma shift_y_no_auto:
  "shift_y c ms = Inr ms' \<Longrightarrow> (k, m) \<in> set ms \<Longrightarrow> position m \<noteq> Auto"
  by (induction ms arbitrary: ms') (auto split: position.splits sum.splits)

lemma shift_x_unplaced: "shift_x c ms = Inr ms' \<Longrightarrow> unplaced ms' = unplaced ms"
  by (induction ms arbitrary: ms') (auto simp: unplaced_def split: position.splits sum.splits)

lemma shift_y_unplaced: "shift_y c ms = Inr ms' \<Longrightarrow> unplaced ms' = unplaced ms"
  by (induction ms arbitrary: ms') (auto simp: unplaced_def split: position.splits sum.splits)

lemma positions_no_unset:
  "positions ms = Inr ps \<Longrightarrow> (k, m) \<in> set ms \<Longrightarrow> position m \<noteq> Unset"
  by (induction ms arbitrary: ps) (auto split: position.splits sum.splits)

lemma normalize_Inr:
  assumes "normalize ms = Inr res"
  obtains ps min_x min_y ms1 where "positions ms = Inr ps"
    "py_min (map fst ps) = Inr min_x" "py_min (map snd ps) = Inr min_y"
    "(if min_x < 0 then shift_x min_x ms else Inr ms) = Inr ms1"
    "(if min_y < 0 then shift_y min_y ms1 else Inr ms1) = Inr res"
  using assms unfolding normalize_def by (auto split: sum.splits)

lemma normalize_unplaced:
  assumes "normalize ms = Inr res"
  shows "unplaced res = unplaced ms"
proof -
  from assms obtain min_x min_y ms1 where
    1: "(if min_x < 0 then shift_x min_x ms else Inr ms) = Inr ms1"
    and 2: "(if min_y < 0 then shift_y min_y ms1 else Inr ms1) = Inr res"
    by (rule normalize_Inr)
  from 1 have "unplaced ms1 = unplaced ms" by (auto split: if_splits dest: shift_x_unplaced)
  moreover from 2 have "unplaced res = unplaced ms1" by (auto split: if_splits dest: shift_y_unplaced)
  ultimately show ?thesis by simp
qed

lemma normalize_with_auto:
  assumes "normalize ms = Inr res" "(k, m) \<in> set ms" "position m = Auto"
  shows "res = ms"
proof -
  from assms(1) obtain min_x min_y ms1 where
    1: "(if min_x < 0 then shift_x min_x ms else Inr ms) = Inr ms1"
    and 2: "(if min_y < 0 then shift_y min_y ms1 else Inr ms1) = Inr res"
    by (rule normalize_Inr)
  from 1 assms(2,3) have "ms1 = ms" by (auto split: if_splits dest: shift_x_no_auto)
  with 2 assms(2,3) show ?thesis by (auto split: if_splits dest: shift_y_no_auto)
qed

lemma normalize_no_unset:
  assumes "normalize ms = Inr res" "(k, m) \<in> set ms"
  shows "position m \<noteq> Unset"
proof -
  from assms(1) obtain ps where "positions ms = Inr ps" by (rule normalize_Inr)
  from positions_no_unset[OF this assms(2)] show ?thesis .
qed

lemma monitor_eqI:
  "m2\<lparr>position := Unset\<rparr> = (m :: monitor)\<lparr>position := Unset\<rparr> \<Longrightarrow> position m2 = position m \<Longrightarrow> m2 = m"
  by (cases m, cases m2) simp

lemma monitors_eqI:
  assumes "unplaced r2 = unplaced r"
    and "\<And>i. i < length r \<Longrightarrow> position (snd (r2 ! i)) = position (snd (r ! i))"
  shows "r2 = r"
proof (rule nth_equalityI)
  show len: "length r2 = length r" by (rule unplaced_eq_length[OF assms(1)])
  fix i assume i: "i < length r2"
  with len have i': "i < length r" by simp
  have "unplaced r2 ! i = unplaced r ! i" using assms(1) by simp
  with i i' have "fst (r2 ! i) = fst (r ! i)"
    and "(snd (r2 ! i))\<lparr>position := Unset\<rparr> = (snd (r ! i))\<lparr>position := Unset\<rparr>"
    by (simp_all add: unplaced_def case_prod_beta)
  with assms(2)[OF i'] show "r2 ! i = r ! i"
    by (auto intro: monitor_eqI prod_eqI)
qed

text \<open>
  C8. Let the positions of the mapping be as the configuration loops leave them (unset,
  or \<open>auto\<close> for a mirror), let \<open>a\<close> be the anchor that \<open>get_upmost_leftmost_monitor\<close>
  finds, and let the resolution of the layout (the traversal from the anchor, then the
  normalization) succeed with the mapping \<open>ms'\<close>. Then resolving \<open>ms'\<close> again from the
  same anchor succeeds and gives \<open>ms'\<close> itself: every monitor keeps its position.
\<close>

theorem resolve_twice_same_positions:
  assumes fresh: "\<forall>(k, m) \<in> set ms. position m = Unset \<or> position m = Auto"
    and anchor: "get_upmost_leftmost_monitor ms = Some a"
    and first: "resolve_layout d ms = Inr ms'"
  shows "resolve_from d ms' a = Inr ms'"
proof -
  from first anchor obtain r where r: "set_position d ms a (0, 0) = Inr r" "normalize r = Inr ms'"
    by (auto simp: resolve_layout_def resolve_from_def split: sum.splits)
  have ur: "unplaced r = unplaced ms" by (rule set_position_unplaced[OF r(1)])
  have u': "unplaced ms' = unplaced ms" using normalize_unplaced[OF r(2)] ur by simp
  have len: "length r = length ms" by (rule unplaced_eq_length[OF ur])
  from set_position_positions_independent[OF u' r(1)] obtain r2 where
    r2: "set_position d ms' a (0, 0) = Inr r2"
    and rel: "\<forall>i<length ms.
              position (snd (r ! i)) = position (snd (r2 ! i)) \<or>
              position (snd (r ! i)) = position (snd (ms ! i)) \<and>
              position (snd (r2 ! i)) = position (snd (ms' ! i))"
    by blast
  have u2: "unplaced r2 = unplaced r"
    using set_position_unplaced[OF r2] u' ur by simp
  have "r2 = r"
  proof (rule monitors_eqI[OF u2])
    fix i assume i: "i < length r"
    with len have im: "i < length ms" by simp
    from rel im consider "position (snd (r ! i)) = position (snd (r2 ! i))"
      | "position (snd (r ! i)) = position (snd (ms ! i))"
        "position (snd (r2 ! i)) = position (snd (ms' ! i))"
      by blast
    then show "position (snd (r2 ! i)) = position (snd (r ! i))"
    proof cases
      case 1
      then show ?thesis by simp
    next
      case 2
      have "(fst (ms ! i), snd (ms ! i)) \<in> set ms" using im by simp
      with fresh have "position (snd (ms ! i)) = Unset \<or> position (snd (ms ! i)) = Auto"
        by blast
      moreover have mem: "(fst (r ! i), snd (r ! i)) \<in> set r" using i by simp
      from normalize_no_unset[OF r(2) mem] have "position (snd (r ! i)) \<noteq> Unset" .
      ultimately have "position (snd (r ! i)) = Auto" using 2(1) by simp
      from normalize_with_auto[OF r(2) mem this] have "ms' = r" .
      with 2(2) show ?thesis by simp
    qed
  qed
  with r2 r(2) show ?thesis by (simp add: resolve_from_def)
qed

text \<open>
  The theorem at the pair where B is taller than A: the first run shifts both monitors
  down by 180, and the second run from A gives the same mapping.
\<close>

theorem resolve_twice_same_positions_witness:
  "resolve_from 100 pair_resolved ''A'' = Inr pair_resolved"
proof -
  have 1: "\<forall>(k, m) \<in> set pair_monitors. position m = Unset \<or> position m = Auto"
    by (simp add: pair_monitors_def Monitor_def)
  have 2: "get_upmost_leftmost_monitor pair_monitors = Some ''A''" by code_simp
  have 3: "resolve_layout 100 pair_monitors = Inr pair_resolved" by code_simp
  show ?thesis by (rule resolve_twice_same_positions[OF 1 2 3])
qed


section \<open>Claim C9: more than one candidate for the anchor\<close>

lemma is_target_unplaced: "is_target k (unplaced ms) = is_target k ms"
  by (induction ms) (auto simp: is_target_def unplaced_def)

lemma mem_modify_other: "k \<noteq> n \<Longrightarrow> (k, m) \<in> set ms \<Longrightarrow> (k, m) \<in> set (modify n f ms)"
  by (force simp: modify_def)

lemma is_target_right:
  "(n, mn) \<in> set ms \<Longrightarrow> truthy (right mn) \<Longrightarrow> is_target (the (right mn)) ms"
  by (cases "right mn") (force simp: is_target_def)+

lemma is_target_below:
  "(n, mn) \<in> set ms \<Longrightarrow> truthy (below mn) \<Longrightarrow> is_target (the (below mn)) ms"
  by (cases "below mn") (force simp: is_target_def)+

lemma set_position_untouched:
  assumes "set_position d ms n p = Inr r" "(k, m) \<in> set ms" "k \<noteq> n" "\<not> is_target k ms"
  shows "(k, m) \<in> set r"
  using assms
proof (induction d arbitrary: ms n p r)
  case 0
  then show ?case by simp
next
  case (Suc d)
  let ?ms0 = "modify n (\<lambda>m. m\<lparr>position := At (fst p) (snd p)\<rparr>) ms"
  from Suc.prems(1) obtain mn ms1 where mn: "map_of ms n = Some mn"
    and R: "if truthy (right mn)
       then \<exists>rm np. map_of ms (the (right mn)) = Some rm \<and> next_position_right mn rm p = Inr np \<and>
              set_position d ?ms0 (the (right mn)) np = Inr ms1
       else ms1 = ?ms0"
    and B: "if truthy (below mn)
       then \<exists>bm np. map_of ms1 (the (below mn)) = Some bm \<and> next_position_below mn bm p = Inr np \<and>
              set_position d ms1 (the (below mn)) np = Inr r
       else r = ms1"
    unfolding set_position_Suc_Inr by blast
  have mem: "(n, mn) \<in> set ms" by (rule map_of_SomeD[OF mn])
  have k0: "(k, m) \<in> set ?ms0" by (rule mem_modify_other[OF Suc.prems(3,2)])
  have t0: "\<not> is_target k ?ms0"
    using Suc.prems(4) is_target_unplaced[of k ?ms0] is_target_unplaced[of k ms]
    by (simp add: unplaced_modify_position)
  have u1: "unplaced ms1 = unplaced ms"
    using R by (auto simp: unplaced_modify_position dest: set_position_unplaced split: if_splits)
  have k1: "(k, m) \<in> set ms1"
  proof (cases "truthy (right mn)")
    case False
    with R k0 show ?thesis by simp
  next
    case True
    with R obtain np where c: "set_position d ?ms0 (the (right mn)) np = Inr ms1" by auto
    from is_target_right[OF mem True] Suc.prems(4) have "k \<noteq> the (right mn)" by auto
    from Suc.IH[OF c k0 this t0] show ?thesis .
  qed
  have t1: "\<not> is_target k ms1"
    using Suc.prems(4) is_target_unplaced[of k ms1] is_target_unplaced[of k ms] u1 by simp
  show ?case
  proof (cases "truthy (below mn)")
    case False
    with B k1 show ?thesis by simp
  next
    case True
    with B obtain np where c: "set_position d ms1 (the (below mn)) np = Inr r" by auto
    from is_target_below[OF mem True] Suc.prems(4) have "k \<noteq> the (below mn)" by auto
    from Suc.IH[OF c k1 this t1] show ?thesis .
  qed
qed

lemma get_upmost_leftmost_monitor_find:
  "get_upmost_leftmost_monitor ms = map_option fst (List.find (\<lambda>(k, m). is_candidate m) ms)"
proof (induction ms)
  case Nil
  then show ?case by simp
next
  case (Cons a ms)
  obtain k m where a: "a = (k, m)" by (cases a)
  show ?case
  proof (cases "position m = Auto")
    case True
    with Cons a show ?thesis by (simp add: is_candidate_def)
  next
    case False
    note na = this
    show ?thesis
    proof (cases "\<not> truthy (above m) \<and> \<not> truthy (left m)")
      case True
      with na a show ?thesis by (simp add: is_candidate_def)
    next
      case False
      then have "\<not> is_candidate m" by (auto simp: is_candidate_def)
      with False na Cons a show ?thesis by auto
    qed
  qed
qed

lemma positions_unset:
  "(k, m) \<in> set ms \<Longrightarrow> position m = Unset \<Longrightarrow> positions ms = Inl AttributeError"
proof (induction ms)
  case Nil
  then show ?case by simp
next
  case (Cons a ms)
  obtain k' m' where a: "a = (k', m')" by (cases a)
  show ?case
  proof (cases "(k, m) = (k', m')")
    case True
    with a Cons.prems show ?thesis by simp
  next
    case False
    with Cons a have "positions ms = Inl AttributeError" by auto
    with a show ?thesis by (simp split: position.splits)
  qed
qed

text \<open>
  C9, as amended. \<open>get_upmost_leftmost_monitor\<close> returns the first monitor, in the
  order of the mapping, that is a candidate, and checks nothing else. Let the neighbours
  of the mapping be consistent (as they are in every mapping built from a configuration
  without an empty name), let \<open>c1\<close> be that first candidate, and let \<open>c2\<close> be another
  candidate, its position unset as the configuration loops leave it. Then the traversal
  from \<open>c1\<close>, when it returns, has left \<open>c2\<close> as it was, with no position; the
  normalization then raises \<open>AttributeError\<close> on reading it, and the resolution of the
  layout ends with that error, or with the error of the traversal: never with an error
  that reports an unreachable monitor.
\<close>

theorem later_candidate_never_placed:
  assumes cons: "neighbours_consistent ms"
    and first: "List.find (\<lambda>(k, m). is_candidate m) ms = Some (c1, m1)"
    and later: "(c2, m2) \<in> set ms" "is_candidate m2" "c2 \<noteq> c1"
    and unset: "position m2 = Unset"
  shows "get_upmost_leftmost_monitor ms = Some c1 \<and>
         (\<forall>r. set_position d ms c1 (0, 0) = Inr r \<longrightarrow>
              (c2, m2) \<in> set r \<and> normalize r = Inl AttributeError) \<and>
         resolve_layout d ms =
           (case set_position d ms c1 (0, 0) of Inl e \<Rightarrow> Inl e | Inr r \<Rightarrow> Inl AttributeError)"
proof -
  have anchor: "get_upmost_leftmost_monitor ms = Some c1"
    using first by (simp add: get_upmost_leftmost_monitor_find)
  have nt: "\<not> is_target c2 ms"
    using cons later(1,2) by (auto simp: neighbours_consistent_def is_candidate_def)
  have trav: "(c2, m2) \<in> set r \<and> normalize r = Inl AttributeError"
    if r: "set_position d ms c1 (0, 0) = Inr r" for r
  proof -
    from set_position_untouched[OF r later(1,3) nt] have mem: "(c2, m2) \<in> set r" .
    from positions_unset[OF mem unset] have "normalize r = Inl AttributeError"
      by (simp add: normalize_def)
    with mem show ?thesis by simp
  qed
  have "resolve_layout d ms =
      (case set_position d ms c1 (0, 0) of Inl e \<Rightarrow> Inl e | Inr r \<Rightarrow> Inl AttributeError)"
    using anchor trav by (auto simp: resolve_layout_def resolve_from_def split: sum.splits)
  with anchor trav show ?thesis by blast
qed

text \<open>The theorem at two monitors without any position directive.\<close>

theorem later_candidate_never_placed_witness:
  "get_upmost_leftmost_monitor unrelated_monitors = Some ''A'' \<and>
   resolve_layout 100 unrelated_monitors = Inl AttributeError"
proof -
  have 1: "neighbours_consistent unrelated_monitors" by code_simp
  have 2: "List.find (\<lambda>(k, m). is_candidate m) unrelated_monitors =
      Some (''A'', (Monitor ''DP-1'' ''A'')\<lparr>resolution := Res 1920 1080\<rparr>)"
    by code_simp
  have 3: "(''B'', (Monitor ''DP-2'' ''B'')\<lparr>resolution := Res 1920 1080\<rparr>) \<in> set unrelated_monitors"
    by (simp add: unrelated_monitors_def)
  have 4: "is_candidate ((Monitor ''DP-2'' ''B'')\<lparr>resolution := Res 1920 1080\<rparr>)" by code_simp
  have 5: "''B'' \<noteq> ''A''" by simp
  have 6: "position ((Monitor ''DP-2'' ''B'')\<lparr>resolution := Res 1920 1080\<rparr>) = Unset"
    by (simp add: Monitor_def)
  have e: "set_position 100 unrelated_monitors ''A'' (0, 0) =
      Inr [(''A'', (Monitor ''DP-1'' ''A'')\<lparr>resolution := Res 1920 1080, position := At 0 0\<rparr>),
           (''B'', (Monitor ''DP-2'' ''B'')\<lparr>resolution := Res 1920 1080\<rparr>)]"
    by code_simp
  note t = later_candidate_never_placed[OF 1 2 3 4 5 6, of 100]
  from t have a: "get_upmost_leftmost_monitor unrelated_monitors = Some ''A''"
    by (rule conjunct1)
  from t have "resolve_layout 100 unrelated_monitors =
      (case set_position 100 unrelated_monitors ''A'' (0, 0) of
         Inl e \<Rightarrow> Inl e | Inr r \<Rightarrow> Inl AttributeError)"
    by (rule conjunct2[THEN conjunct2])
  then have "resolve_layout 100 unrelated_monitors = Inl AttributeError"
    unfolding e by simp
  with a show ?thesis by (rule conjI)
qed

text \<open>
  C9 as stated fails for a monitor named by the empty string: declared left of X, it
  becomes the \<open>left\<close> neighbour of X, which tests false. Both monitors are then
  candidates, the first one is the anchor, and the traversal visits and places X: the
  pass succeeds.
\<close>

theorem empty_name_counterexample:
  "build_monitors empty_name_config cycle_hyprctl = Inr empty_name_monitors \<and>
   list_all (is_candidate \<circ> snd) empty_name_monitors \<and>
   resolve_layout 100 empty_name_monitors = Inr empty_name_resolved"
  by code_simp

section \<open>The mapping built from a configuration\<close>

text \<open>
  The mappings that the resolution of the layout receives: every position is unset or
  \<open>auto\<close>, and, when no configured name is the empty string, the neighbours are
  consistent. These are the hypotheses of the theorems of C8 and C9.
\<close>

lemma modify_preserves:
  assumes "\<forall>(k, m) \<in> set ms. Q m" "\<And>m. Q m \<Longrightarrow> Q (f m)"
  shows "\<forall>(k, m) \<in> set (modify j f ms). Q m"
  using assms by (auto simp: modify_def)

lemma update_preserves:
  assumes "\<forall>(k, m) \<in> set ms. Q m" "Q v"
  shows "\<forall>(k, m) \<in> set (AList.update j v ms). Q m"
  using assms by (induction ms) auto

lemma match_config_fresh:
  "match_config cfg hm ms0 = Inr ms \<Longrightarrow>
   \<forall>(k, m) \<in> set ms0. position m = Unset \<or> position m = Auto \<Longrightarrow>
   \<forall>(k, m) \<in> set ms. position m = Unset \<or> position m = Auto"
proof (induction cfg arbitrary: ms0)
  case Nil
  then show ?case by simp
next
  case (Cons a cfg)
  obtain n c where a: "a = (n, c)" by (cases a)
  show ?case
  proof (cases "c_match c")
    case None
    with Cons.prems a show ?thesis by simp
  next
    case (Some mt)
    show ?thesis
    proof (cases "select_monitors hm mt")
      case (Inl e)
      with Cons.prems a Some show ?thesis by simp
    next
      case (Inr so)
      show ?thesis
      proof (cases so)
        case None
        with Cons.prems a Some Inr have "match_config cfg hm ms0 = Inr ms" by simp
        from Cons.IH[OF this Cons.prems(2)] show ?thesis .
      next
        case (Some sel)
        from Cons.prems(1) a \<open>c_match c = Some mt\<close> Inr Some
        obtain m' where m': "match_config cfg hm (AList.update n m' ms0) = Inr ms"
          "position m' = Unset"
          by (auto simp: set_align_def Monitor_def split: option.splits if_splits)
        from update_preserves[OF Cons.prems(2), of m' n] m'(2)
        have "\<forall>(k, m) \<in> set (AList.update n m' ms0). position m = Unset \<or> position m = Auto"
          by simp
        from Cons.IH[OF m'(1) this] show ?thesis .
      qed
    qed
  qed
qed

lemma positions_modify:
  "(\<And>m. position (f m) = position m) \<Longrightarrow>
   map (\<lambda>(k, m). position m) (modify j f ms) = map (\<lambda>(k, m). position m) ms"
  by (induction ms) (auto simp: modify_def)

lemma positions_wire_directions:
  "map (\<lambda>(k, m). position m) (wire_directions n r pos ms) = map (\<lambda>(k, m). position m) ms"
  by (simp add: wire_directions_def Let_def wire_above_def wire_below_def wire_left_of_def
      wire_right_of_def positions_modify)

lemma fresh_positions:
  "(\<forall>(k, m) \<in> set ms. position m = Unset \<or> position m = Auto) \<longleftrightarrow>
   (\<forall>q \<in> set (map (\<lambda>(k, m). position m) ms). q = Unset \<or> q = Auto)"
  by auto

lemma wire_directions_fresh:
  assumes "\<forall>(k, m) \<in> set ms. position m = Unset \<or> position m = Auto"
  shows "\<forall>(k, m) \<in> set (wire_directions n r pos ms). position m = Unset \<or> position m = Auto"
  using assms unfolding fresh_positions positions_wire_directions .

lemma wire_same_as_fresh:
  assumes "wire_same_as n r ms = Inr ms'"
    "\<forall>(k, m) \<in> set ms. position m = Unset \<or> position m = Auto"
  shows "\<forall>(k, m) \<in> set ms'. position m = Unset \<or> position m = Auto"
proof (cases "map_of ms r")
  case None
  with assms(1) show ?thesis by (simp add: wire_same_as_def)
next
  case (Some x)
  with assms(1) have ms': "ms' = modify n
      (\<lambda>m. m\<lparr>position := Auto, resolution := Preferred, scale := JStr ''1'',
             extra := Some (''mirror,'' @ mid x)\<rparr>) ms"
    by (simp add: wire_same_as_def)
  show ?thesis
    unfolding ms'
    by (rule modify_preserves[where Q = "\<lambda>m. position m = Unset \<or> position m = Auto",
          OF assms(2)]) simp
qed

lemma wire_position_fresh:
  assumes "wire_position ms n pos = Inr ms'"
    "\<forall>(k, m) \<in> set ms. position m = Unset \<or> position m = Auto"
  shows "\<forall>(k, m) \<in> set ms'. position m = Unset \<or> position m = Auto"
proof -
  from wire_position_Inr[OF assms(1)] obtain r where
    w: "if str_in ''same-as'' pos
        then wire_same_as n r (wire_directions n r pos ms) = Inr ms'
        else ms' = wire_directions n r pos ms"
    by blast
  note d = wire_directions_fresh[OF assms(2), of n r pos]
  show ?thesis
  proof (cases "str_in ''same-as'' pos")
    case True
    with w have "wire_same_as n r (wire_directions n r pos ms) = Inr ms'" by simp
    from wire_same_as_fresh[OF this d] show ?thesis .
  next
    case False
    with w d show ?thesis by simp
  qed
qed

lemma organize_fresh:
  "organize cfg ms = Inr ms' \<Longrightarrow>
   \<forall>(k, m) \<in> set ms. position m = Unset \<or> position m = Auto \<Longrightarrow>
   \<forall>(k, m) \<in> set ms'. position m = Unset \<or> position m = Auto"
proof (induction cfg arbitrary: ms)
  case Nil
  then show ?case by simp
next
  case (Cons a cfg)
  obtain n c where a: "a = (n, c)" by (cases a)
  show ?case
  proof (cases "map_of ms n = None")
    case True
    with Cons a show ?thesis by simp
  next
    case False
    from Cons.prems(1) a have "organize ((n, c) # cfg) ms = Inr ms'" by simp
    from organize_step[OF this False] obtain ms1 where
      1: "(case c_position c of None \<Rightarrow> Inr ms | Some pos \<Rightarrow> wire_position ms n pos) = Inr ms1"
      and 2: "organize cfg (case c_scale c of None \<Rightarrow> ms1 | Some s \<Rightarrow> modify n (\<lambda>m. m\<lparr>scale := s\<rparr>) ms1) = Inr ms'"
      by blast
    from 1 Cons.prems(2) have f1: "\<forall>(k, m) \<in> set ms1. position m = Unset \<or> position m = Auto"
      by (cases "c_position c") (auto dest: wire_position_fresh)
    have "\<forall>(k, m) \<in> set (case c_scale c of None \<Rightarrow> ms1 | Some s \<Rightarrow> modify n (\<lambda>m. m\<lparr>scale := s\<rparr>) ms1).
        position m = Unset \<or> position m = Auto"
    proof (cases "c_scale c")
      case None
      with f1 show ?thesis by simp
    next
      case (Some s)
      have "\<forall>(k, m) \<in> set (modify n (\<lambda>m. m\<lparr>scale := s\<rparr>) ms1).
          position m = Unset \<or> position m = Auto"
        by (rule modify_preserves[where Q = "\<lambda>m. position m = Unset \<or> position m = Auto",
              OF f1]) simp
      with Some show ?thesis by simp
    qed
    from Cons.IH[OF 2 this] show ?thesis .
  qed
qed

lemma build_monitors_fresh:
  assumes "build_monitors cfg hm = Inr ms"
  shows "\<forall>(k, m) \<in> set ms. position m = Unset \<or> position m = Auto"
proof -
  from assms obtain ms0 where ms0: "match_config cfg hm [] = Inr ms0" "organize cfg ms0 = Inr ms"
    by (auto simp: build_monitors_def split: sum.splits)
  from match_config_fresh[OF ms0(1)] have "\<forall>(k, m) \<in> set ms0. position m = Unset \<or> position m = Auto"
    by simp
  from organize_fresh[OF ms0(2) this] show ?thesis .
qed

lemma mem_modify:
  "(k, m') \<in> set (modify j f ms) \<longleftrightarrow> (\<exists>m. (k, m) \<in> set ms \<and> m' = (if k = j then f m else m))"
  by (force simp: modify_def)

lemma mem_modify2D:
  assumes "(k, m') \<in> set (modify j g (modify i f ms))"
  obtains m where "(k, m) \<in> set ms"
    "m' = (if k = j then g else id) ((if k = i then f else id) m)"
proof -
  from assms obtain m1 where 1: "(k, m1) \<in> set (modify i f ms)"
    "m' = (if k = j then g m1 else m1)"
    unfolding mem_modify by blast
  from 1(1) obtain m where 2: "(k, m) \<in> set ms" "m1 = (if k = i then f m else m)"
    unfolding mem_modify by blast
  from 1(2) 2 have "m' = (if k = j then g else id) ((if k = i then f else id) m)" by simp
  with 2(1) show thesis by (rule that)
qed

lemma consistentI:
  assumes "\<And>k m k' m'. (k, m) \<in> set ms \<Longrightarrow> (k', m') \<in> set ms \<Longrightarrow>
      (truthy (right m') \<and> right m' = Some k) \<or> (truthy (below m') \<and> below m' = Some k) \<Longrightarrow>
      truthy (left m) \<or> truthy (above m)"
  shows "neighbours_consistent ms"
  unfolding neighbours_consistent_def is_target_def using assms by blast

lemma consistentD:
  assumes "neighbours_consistent ms" "(k, m) \<in> set ms" "(k', m') \<in> set ms"
    "(truthy (right m') \<and> right m' = Some k) \<or> (truthy (below m') \<and> below m' = Some k)"
  shows "truthy (left m) \<or> truthy (above m)"
  using assms unfolding neighbours_consistent_def is_target_def by blast

lemma modify2_consistent:
  fixes f g :: "monitor \<Rightarrow> monitor" and i j :: string
  defines "h \<equiv> \<lambda>k. (if k = j then g else id) \<circ> (if k = i then f else id)"
  assumes c: "neighbours_consistent ms"
    and keep: "\<And>k m. truthy (left m) \<or> truthy (above m) \<Longrightarrow>
        truthy (left (h k m)) \<or> truthy (above (h k m))"
    and new: "\<And>k' m' k. (truthy (right (h k' m')) \<and> right (h k' m') = Some k) \<or>
          (truthy (below (h k' m')) \<and> below (h k' m') = Some k) \<Longrightarrow>
        (truthy (right m') \<and> right m' = Some k) \<or> (truthy (below m') \<and> below m' = Some k) \<or>
        (\<forall>m. truthy (left (h k m)) \<or> truthy (above (h k m)))"
  shows "neighbours_consistent (modify j g (modify i f ms))"
proof (rule consistentI)
  fix k m k' m'
  assume a: "(k, m) \<in> set (modify j g (modify i f ms))"
    "(k', m') \<in> set (modify j g (modify i f ms))"
    and t: "(truthy (right m') \<and> right m' = Some k) \<or> (truthy (below m') \<and> below m' = Some k)"
  from a(1) obtain m0 where m0: "(k, m0) \<in> set ms" and e: "m = h k m0"
    unfolding h_def comp_def by (rule mem_modify2D)
  from a(2) obtain m0' where m0': "(k', m0') \<in> set ms" and e': "m' = h k' m0'"
    unfolding h_def comp_def by (rule mem_modify2D)
  from new[of k' m0' k] t e'
  consider "(truthy (right m0') \<and> right m0' = Some k) \<or> (truthy (below m0') \<and> below m0' = Some k)"
    | "\<forall>m. truthy (left (h k m)) \<or> truthy (above (h k m))"
    by blast
  then show "truthy (left m) \<or> truthy (above m)"
  proof cases
    case 1
    from consistentD[OF c m0 m0' 1] have "truthy (left m0) \<or> truthy (above m0)" .
    from keep[OF this, of k] e show ?thesis by simp
  next
    case 2
    with e show ?thesis by simp
  qed
qed

lemma wire_consistent:
  assumes "neighbours_consistent ms" "n \<noteq> []" "r \<noteq> []"
  shows "neighbours_consistent (wire_above n r ms)"
    and "neighbours_consistent (wire_below n r ms)"
    and "neighbours_consistent (wire_left_of n r ms)"
    and "neighbours_consistent (wire_right_of n r ms)"
proof -
  show "neighbours_consistent (wire_above n r ms)"
    unfolding wire_above_def
    apply (rule modify2_consistent[OF assms(1)])
     apply (insert assms(2,3))
     apply (auto split: if_splits)
    done
  show "neighbours_consistent (wire_below n r ms)"
    unfolding wire_below_def
    apply (rule modify2_consistent[OF assms(1)])
     apply (insert assms(2,3))
     apply (auto split: if_splits)
    done
  show "neighbours_consistent (wire_left_of n r ms)"
    unfolding wire_left_of_def
    apply (rule modify2_consistent[OF assms(1)])
     apply (insert assms(2,3))
     apply (auto split: if_splits)
    done
  show "neighbours_consistent (wire_right_of n r ms)"
    unfolding wire_right_of_def
    apply (rule modify2_consistent[OF assms(1)])
     apply (insert assms(2,3))
     apply (auto split: if_splits)
    done
qed

lemma wire_directions_consistent:
  assumes "neighbours_consistent ms" "n \<noteq> []" "r \<noteq> []"
  shows "neighbours_consistent (wire_directions n r pos ms)"
  unfolding wire_directions_def Let_def
  using assms by (simp add: wire_consistent)

lemma modify_links_consistent:
  assumes c: "neighbours_consistent ms"
    and f: "\<And>m. left (f m) = left m \<and> above (f m) = above m \<and> right (f m) = right m \<and>
          below (f m) = below m"
  shows "neighbours_consistent (modify j f ms)"
proof (rule consistentI)
  fix k m k' m'
  assume a: "(k, m) \<in> set (modify j f ms)" "(k', m') \<in> set (modify j f ms)"
    and t: "(truthy (right m') \<and> right m' = Some k) \<or> (truthy (below m') \<and> below m' = Some k)"
  from a(1) obtain m0 where m0: "(k, m0) \<in> set ms" "m = (if k = j then f m0 else m0)"
    unfolding mem_modify by blast
  from a(2) obtain m0' where m0': "(k', m0') \<in> set ms" "m' = (if k' = j then f m0' else m0')"
    unfolding mem_modify by blast
  from m0(2) f[of m0] have 1: "left m = left m0" "above m = above m0"
    by (auto split: if_splits)
  from m0'(2) f[of m0'] have 2: "right m' = right m0'" "below m' = below m0'"
    by (auto split: if_splits)
  from consistentD[OF c m0(1) m0'(1)] t show "truthy (left m) \<or> truthy (above m)"
    unfolding 1 2 by blast
qed

lemma wire_same_as_consistent:
  assumes "wire_same_as n r ms = Inr ms'" "neighbours_consistent ms"
  shows "neighbours_consistent ms'"
proof (cases "map_of ms r")
  case None
  with assms(1) show ?thesis by (simp add: wire_same_as_def)
next
  case (Some x)
  with assms(1) have ms': "ms' = modify n
      (\<lambda>m. m\<lparr>position := Auto, resolution := Preferred, scale := JStr ''1'',
             extra := Some (''mirror,'' @ mid x)\<rparr>) ms"
    by (simp add: wire_same_as_def)
  show ?thesis unfolding ms' by (rule modify_links_consistent[OF assms(2)]) simp
qed

lemma wire_position_consistent:
  assumes "wire_position ms n pos = Inr ms'" "neighbours_consistent ms" "n \<noteq> []"
  shows "neighbours_consistent ms'"
proof -
  from wire_position_Inr[OF assms(1)] obtain t r rest where
    s: "split_ws pos = t # r # rest"
    and w: "if str_in ''same-as'' pos
        then wire_same_as n r (wire_directions n r pos ms) = Inr ms'
        else ms' = wire_directions n r pos ms"
    by blast
  have "r \<noteq> []" by (rule split_ws_second_nonempty[OF s])
  note d = wire_directions_consistent[OF assms(2,3) this, of pos]
  show ?thesis
  proof (cases "str_in ''same-as'' pos")
    case True
    with w have "wire_same_as n r (wire_directions n r pos ms) = Inr ms'" by simp
    from wire_same_as_consistent[OF this d] show ?thesis .
  next
    case False
    with w d show ?thesis by simp
  qed
qed

lemma organize_consistent:
  "organize cfg ms = Inr ms' \<Longrightarrow> neighbours_consistent ms \<Longrightarrow> [] \<notin> set (map fst cfg) \<Longrightarrow>
   neighbours_consistent ms'"
proof (induction cfg arbitrary: ms)
  case Nil
  then show ?case by simp
next
  case (Cons a cfg)
  obtain n c where a: "a = (n, c)" by (cases a)
  with Cons.prems(3) have n: "n \<noteq> []" and rest: "[] \<notin> set (map fst cfg)" by auto
  show ?case
  proof (cases "map_of ms n = None")
    case True
    with Cons.prems(1) a have "organize cfg ms = Inr ms'" by simp
    from Cons.IH[OF this Cons.prems(2) rest] show ?thesis .
  next
    case False
    from Cons.prems(1) a have "organize ((n, c) # cfg) ms = Inr ms'" by simp
    from organize_step[OF this False] obtain ms1 where
      1: "(case c_position c of None \<Rightarrow> Inr ms | Some pos \<Rightarrow> wire_position ms n pos) = Inr ms1"
      and 2: "organize cfg (case c_scale c of None \<Rightarrow> ms1 | Some s \<Rightarrow> modify n (\<lambda>m. m\<lparr>scale := s\<rparr>) ms1) = Inr ms'"
      by blast
    from 1 Cons.prems(2) n have c1: "neighbours_consistent ms1"
      by (cases "c_position c") (auto dest: wire_position_consistent)
    have "neighbours_consistent (case c_scale c of None \<Rightarrow> ms1 | Some s \<Rightarrow> modify n (\<lambda>m. m\<lparr>scale := s\<rparr>) ms1)"
    proof (cases "c_scale c")
      case None
      with c1 show ?thesis by simp
    next
      case (Some s)
      have "neighbours_consistent (modify n (\<lambda>m. m\<lparr>scale := s\<rparr>) ms1)"
        by (rule modify_links_consistent[OF c1]) simp
      with Some show ?thesis by simp
    qed
    from Cons.IH[OF 2 this rest] show ?thesis .
  qed
qed

lemma match_config_no_links:
  "match_config cfg hm ms0 = Inr ms \<Longrightarrow>
   \<forall>(k, m) \<in> set ms0. right m = None \<and> below m = None \<Longrightarrow>
   \<forall>(k, m) \<in> set ms. right m = None \<and> below m = None"
proof (induction cfg arbitrary: ms0)
  case Nil
  then show ?case by simp
next
  case (Cons a cfg)
  obtain n c where a: "a = (n, c)" by (cases a)
  show ?case
  proof (cases "c_match c")
    case None
    with Cons.prems a show ?thesis by simp
  next
    case (Some mt)
    show ?thesis
    proof (cases "select_monitors hm mt")
      case (Inl e)
      with Cons.prems a Some show ?thesis by simp
    next
      case (Inr so)
      show ?thesis
      proof (cases so)
        case None
        with Cons.prems a Some Inr have "match_config cfg hm ms0 = Inr ms" by simp
        from Cons.IH[OF this Cons.prems(2)] show ?thesis .
      next
        case (Some sel)
        from Cons.prems(1) a \<open>c_match c = Some mt\<close> Inr Some
        obtain m' where m': "match_config cfg hm (AList.update n m' ms0) = Inr ms"
          "right m' = None \<and> below m' = None"
          by (auto simp: set_align_def Monitor_def split: option.splits if_splits)
        from update_preserves[where Q = "\<lambda>m. right m = None \<and> below m = None",
            OF Cons.prems(2) m'(2)]
        have "\<forall>(k, m) \<in> set (AList.update n m' ms0). right m = None \<and> below m = None" .
        from Cons.IH[OF m'(1) this] show ?thesis .
      qed
    qed
  qed
qed

lemma build_monitors_consistent:
  assumes "build_monitors cfg hm = Inr ms" "[] \<notin> set (map fst cfg)"
  shows "neighbours_consistent ms"
proof -
  from assms(1) obtain ms0 where ms0: "match_config cfg hm [] = Inr ms0" "organize cfg ms0 = Inr ms"
    by (auto simp: build_monitors_def split: sum.splits)
  from match_config_no_links[OF ms0(1)] have "\<forall>(k, m) \<in> set ms0. right m = None \<and> below m = None"
    by simp
  then have "neighbours_consistent ms0"
    by (intro consistentI) fastforce
  from organize_consistent[OF ms0(2) this assms(2)] show ?thesis .
qed

section \<open>The values of the placement and of the normalization\<close>

text \<open>
  The position handed to a neighbour is computed from the sizes alone, except for the
  alignments top and left; it is the position the specification describes when the
  current monitor is at the origin. A normalization that returns has shifted every
  position by the negative minima, so that a negative minimum becomes zero and the
  differences between positions are kept.
\<close>

lemma next_position_right_value:
  assumes "resolution m = Res w h" "resolution right_monitor = Res rw rh"
  shows "next_position_right m right_monitor (x, y) =
     Inr (w, if align right_monitor = ''top'' then y
             else if align right_monitor = ''bottom'' then h - rh
             else (h - rh) div 2)"
  using assms by (simp add: next_position_right_def)

lemma next_position_below_value:
  assumes "resolution m = Res w h" "resolution below_monitor = Res bw bh"
  shows "next_position_below m below_monitor (x, y) =
     Inr (if align below_monitor = ''left'' then x
          else if align below_monitor = ''right'' then w - bw
          else (w - bw) div 2, h)"
  using assms by (simp add: next_position_below_def)

lemma shift_x_positions:
  "shift_x c ms = Inr ms' \<Longrightarrow>
   \<exists>ps. positions ms = Inr ps \<and> positions ms' = Inr (map (\<lambda>(x, y). (x - c, y)) ps)"
proof (induction ms arbitrary: ms')
  case Nil
  then show ?case by simp
next
  case (Cons a ms)
  obtain n m where a: "a = (n, m)" by (cases a)
  from Cons.prems a obtain x y r where p: "position m = At x y" "shift_x c ms = Inr r"
    "ms' = (n, m\<lparr>position := At (x - c) y\<rparr>) # r"
    by (auto split: position.splits sum.splits)
  from Cons.IH[OF p(2)] obtain ps where "positions ms = Inr ps"
    "positions r = Inr (map (\<lambda>(x, y). (x - c, y)) ps)"
    by blast
  with a p show ?case by simp
qed

lemma shift_y_positions:
  "shift_y c ms = Inr ms' \<Longrightarrow>
   \<exists>ps. positions ms = Inr ps \<and> positions ms' = Inr (map (\<lambda>(x, y). (x, y - c)) ps)"
proof (induction ms arbitrary: ms')
  case Nil
  then show ?case by simp
next
  case (Cons a ms)
  obtain n m where a: "a = (n, m)" by (cases a)
  from Cons.prems a obtain x y r where p: "position m = At x y" "shift_y c ms = Inr r"
    "ms' = (n, m\<lparr>position := At x (y - c)\<rparr>) # r"
    by (auto split: position.splits sum.splits)
  from Cons.IH[OF p(2)] obtain ps where "positions ms = Inr ps"
    "positions r = Inr (map (\<lambda>(x, y). (x, y - c)) ps)"
    by blast
  with a p show ?case by simp
qed

lemma normalize_positions:
  assumes "normalize ms = Inr res"
  shows "\<exists>ps min_x min_y. positions ms = Inr ps \<and> py_min (map fst ps) = Inr min_x \<and>
           py_min (map snd ps) = Inr min_y \<and>
           positions res = Inr (map (\<lambda>(x, y). (x - min min_x 0, y - min min_y 0)) ps)"
proof -
  from assms obtain ps min_x min_y ms1 where ps: "positions ms = Inr ps"
    and mx: "py_min (map fst ps) = Inr min_x" and my: "py_min (map snd ps) = Inr min_y"
    and 1: "(if min_x < 0 then shift_x min_x ms else Inr ms) = Inr ms1"
    and 2: "(if min_y < 0 then shift_y min_y ms1 else Inr ms1) = Inr res"
    by (rule normalize_Inr)
  have p1: "positions ms1 = Inr (map (\<lambda>(x, y). (x - min min_x 0, y)) ps)"
  proof (cases "min_x < 0")
    case True
    with 1 have "shift_x min_x ms = Inr ms1" by simp
    from shift_x_positions[OF this] ps True show ?thesis by (auto simp: min_def)
  next
    case False
    with 1 ps show ?thesis by (simp add: min_def case_prod_beta)
  qed
  have "positions res = Inr (map (\<lambda>(x, y). (x - min min_x 0, y - min min_y 0)) ps)"
  proof (cases "min_y < 0")
    case True
    with 2 have "shift_y min_y ms1 = Inr res" by simp
    from shift_y_positions[OF this] p1 True show ?thesis
      by (auto simp: min_def case_prod_beta comp_def)
  next
    case False
    with 2 p1 show ?thesis by (simp add: min_def case_prod_beta)
  qed
  with ps mx my show ?thesis by blast
qed

lemma py_min_shift:
  "py_min xs = Inr a \<Longrightarrow> py_min (map (\<lambda>x. x - c) xs) = Inr (a - c)"
proof (cases xs)
  case Nil
  then show "py_min xs = Inr a \<Longrightarrow> ?thesis" by simp
next
  case (Cons x xs')
  have "fold min (map (\<lambda>x. x - c) ys) (z - c) = fold min ys z - c" for ys and z :: int
    by (induction ys arbitrary: z) (auto simp: min_def)
  with Cons show "py_min xs = Inr a \<Longrightarrow> ?thesis" by auto
qed

lemma normalize_min_x_zero:
  assumes "normalize ms = Inr res" "positions ms = Inr ps" "py_min (map fst ps) = Inr min_x"
    "min_x < 0"
  shows "\<exists>ps'. positions res = Inr ps' \<and> py_min (map fst ps') = Inr 0"
proof -
  from normalize_positions[OF assms(1)] assms(2,3) obtain min_y where
    r: "positions res = Inr (map (\<lambda>(x, y). (x - min min_x 0, y - min min_y 0)) ps)"
    by auto
  have "map fst (map (\<lambda>(x, y). (x - min min_x 0, y - min min_y 0)) ps) =
      map (\<lambda>x. x - min_x) (map fst ps)"
    using assms(4) by (simp add: case_prod_beta min_def)
  moreover from py_min_shift[OF assms(3), of min_x]
  have "py_min (map (\<lambda>x. x - min_x) (map fst ps)) = Inr 0" by simp
  ultimately have "py_min (map fst (map (\<lambda>(x, y). (x - min min_x 0, y - min min_y 0)) ps)) = Inr 0"
    by (simp only:)
  with r show ?thesis by blast
qed

lemma normalize_min_y_zero:
  assumes "normalize ms = Inr res" "positions ms = Inr ps" "py_min (map snd ps) = Inr min_y"
    "min_y < 0"
  shows "\<exists>ps'. positions res = Inr ps' \<and> py_min (map snd ps') = Inr 0"
proof -
  from normalize_positions[OF assms(1)] assms(2,3) obtain min_x where
    r: "positions res = Inr (map (\<lambda>(x, y). (x - min min_x 0, y - min min_y 0)) ps)"
    by auto
  have "map snd (map (\<lambda>(x, y). (x - min min_x 0, y - min min_y 0)) ps) =
      map (\<lambda>y. y - min_y) (map snd ps)"
    using assms(4) by (simp add: case_prod_beta min_def)
  moreover from py_min_shift[OF assms(3), of min_y]
  have "py_min (map (\<lambda>y. y - min_y) (map snd ps)) = Inr 0" by simp
  ultimately have "py_min (map snd (map (\<lambda>(x, y). (x - min min_x 0, y - min min_y 0)) ps)) = Inr 0"
    by (simp only:)
  with r show ?thesis by blast
qed

end
